theory Spec2Isabelle
  imports Complex_Main "HOL-Library.Multiset"
begin

section \<open>Data model of bomsort.py\<close>

text \<open>
  The program keeps every component as a Python list of fields. A line of the main BOM
  has the five fields \<open>BOM_DES, BOM_X, BOM_Y, BOM_A, BOM_CMB\<close> (all strings);
  \<open>create_component_list\<close> appends the quantity (\<open>PART_QTY\<close>, index 5) and the
  feeder stage appends the feeder number (\<open>PART_FDR\<close>, index 6). The three shapes are
  modelled as a record and its two extensions, so that a field keeps its position and
  name through the stages.
\<close>

record bom_entry =
  des :: string
  xval :: string
  yval :: string
  aval :: string
  cmb :: string

record part = bom_entry +
  qty :: int

record feeder_entry = part +
  fdr :: nat

datatype py_error = IndexError | OSError

section \<open>create_component_list\<close>

text \<open>
  The inner loop of \<open>create_component_list\<close>: it walks \<open>counted_parts\<close>, and at the first
  entry whose \<open>PART_CMB\<close> equals the part's \<open>BOM_CMB\<close> it increments that entry's
  quantity, clears \<open>insert_flag\<close> and breaks. The result is the flag and the updated list.
\<close>

fun count_part :: "bom_entry \<Rightarrow> part list \<Rightarrow> bool \<times> part list" where
  "count_part p [] = (True, [])"
| "count_part p (counted_part # rest) =
     (if cmb counted_part = cmb p
      then (False, counted_part\<lparr>qty := qty counted_part + 1\<rparr> # rest)
      else (let (insert_flag, rest') = count_part p rest
            in (insert_flag, counted_part # rest')))"

text \<open>\<open>item = list(part); item.append(1)\<close>: a copy of the BOM line with quantity 1.\<close>

definition new_item :: "bom_entry \<Rightarrow> part" where
  "new_item p = \<lparr>des = des p, xval = xval p, yval = yval p, aval = aval p, cmb = cmb p, qty = 1\<rparr>"

text \<open>The outer loop over \<open>bomlist\<close>, with \<open>counted_parts\<close> as the loop state.\<close>

fun count_loop :: "bom_entry list \<Rightarrow> part list \<Rightarrow> part list" where
  "count_loop [] counted_parts = counted_parts"
| "count_loop (p # bomlist) counted_parts =
     (let (insert_flag, counted_parts') = count_part p counted_parts
      in if insert_flag
         then count_loop bomlist (counted_parts' @ [new_item p])
         else count_loop bomlist counted_parts')"

definition create_component_list :: "bom_entry list \<Rightarrow> part list" where
  "create_component_list bomlist = count_loop bomlist []"

text \<open>
  The keys of a list in the order of their first occurrence (\<open>remdups\<close> keeps the last
  occurrence of each element, hence the two reversals).
\<close>

definition first_occurrences :: "'a list \<Rightarrow> 'a list" where
  "first_occurrences ks = rev (remdups (rev ks))"

section \<open>The optimizer\<close>

type_synonym 'z entry = "'z bom_entry_scheme"

text \<open>
  The three statements \<open>tmp = bomlist[j]; bomlist[j] = bomlist[k]; bomlist[k] = tmp\<close>.
  Both indices are read before the first assignment, and Python raises \<open>IndexError\<close>
  on an index that is not below \<open>len(bomlist)\<close> (no index is negative here).
\<close>

definition swap_entries :: "nat \<Rightarrow> nat \<Rightarrow> 'a list \<Rightarrow> py_error + 'a list" where
  "swap_entries j k bomlist =
     (if j < length bomlist \<and> k < length bomlist
      then (let tmp = bomlist ! j;
                bomlist1 = bomlist[j := bomlist ! k];
                bomlist2 = bomlist1[k := tmp]
            in Inr bomlist2)
      else Inl IndexError)"

text \<open>
  The body of the \<open>for i in range(cnt-1)\<close> loop, on the state \<open>(bomlist, updated)\<close>:
  the comparison \<open>bomlist[i][4] == bomlist[i+1][4]\<close> reads both entries, and a collision
  sets \<open>updated\<close> and swaps according to the position.
\<close>

definition opt_step :: "nat \<Rightarrow> 'z entry list \<times> bool \<Rightarrow> py_error + 'z entry list \<times> bool" where
  "opt_step i st =
     (let (bomlist, updated) = st in
      if \<not> i + 1 < length bomlist then Inl IndexError
      else if cmb (bomlist ! i) = cmb (bomlist ! (i + 1))
      then (case (if i \<le> 17
                  then (if i = 0 then swap_entries (i + 2) (i + 1) bomlist
                        else swap_entries (i - 1) i bomlist)
                  else (if i = 36 then swap_entries (i - 1) i bomlist
                        else swap_entries (i + 2) (i + 1) bomlist))
            of Inl e \<Rightarrow> Inl e
             | Inr bomlist' \<Rightarrow> Inr (bomlist', True))
      else Inr (bomlist, updated))"

fun opt_scan :: "nat list \<Rightarrow> 'z entry list \<times> bool \<Rightarrow> py_error + 'z entry list \<times> bool" where
  "opt_scan [] st = Inr st"
| "opt_scan (i # is) st =
     (case opt_step i st of Inl e \<Rightarrow> Inl e | Inr st' \<Rightarrow> opt_scan is st')"

text \<open>
  One call: the list after the pass and the returned flag, or the exception.
  \<open>range(cnt-1)\<close> is empty for \<open>cnt = 0\<close>, as \<open>[0..<0 - 1]\<close> is.
\<close>

definition optimize_part_list :: "'z entry list \<Rightarrow> nat \<Rightarrow> py_error + 'z entry list \<times> bool" where
  "optimize_part_list bomlist cnt = opt_scan [0..<cnt - 1] (bomlist, False)"

text \<open>
  \<open>while optimize_part_list(fls, cnt): print(...)\<close>. The source puts no bound on the
  number of passes, so the loop is a partial function: \<open>None\<close> is a run that never
  leaves the loop.
\<close>

partial_function (option) optimize_loop ::
  "'z entry list \<Rightarrow> nat \<Rightarrow> (py_error + 'z entry list) option" where
  "optimize_loop fls cnt =
     (case optimize_part_list fls cnt of
        Inl e \<Rightarrow> Some (Inl e)
      | Inr (fls', updated) \<Rightarrow> if updated then optimize_loop fls' cnt else Some (Inr fls'))"

declare optimize_loop.simps [code]

text \<open>A fixed number of passes, whatever the flags say (used to speak of "any number of passes").\<close>

fun run_passes :: "nat \<Rightarrow> 'z entry list \<Rightarrow> nat \<Rightarrow> py_error + 'z entry list" where
  "run_passes 0 fls cnt = Inr fls"
| "run_passes (Suc n) fls cnt =
     (case optimize_part_list fls cnt of
        Inl e \<Rightarrow> Inl e
      | Inr (fls', updated) \<Rightarrow> run_passes n fls' cnt)"

text \<open>The positions \<open>i\<close> at which entry \<open>i\<close> and entry \<open>i + 1\<close> have the same typeKey.\<close>

definition collisions :: "'z entry list \<Rightarrow> nat list" where
  "collisions bomlist =
     filter (\<lambda>i. cmb (bomlist ! i) = cmb (bomlist ! (i + 1))) [0..<length bomlist - 1]"

text \<open>No key occurs more than twice.\<close>

definition at_most_twice :: "'a list \<Rightarrow> bool" where
  "at_most_twice ks = (\<forall>k \<in> set ks. count_list ks k \<le> 2)"

text \<open>The number of adjacent equal pairs of a list of keys.\<close>

fun adj_eq :: "'a list \<Rightarrow> nat" where
  "adj_eq (x # y # zs) = (if x = y then 1 else 0) + adj_eq (y # zs)"
| "adj_eq _ = 0"

section \<open>The feeder list stage of main\<close>

definition l1_ptrn :: "nat list" where
  "l1_ptrn = [19,18,20,17,21,16,22,15,23,14,24,13,25,12,26,11,27,10,28,9,29,8,30,7,31,6,32,5,
              33,4,34,3,35,2,36,1,37,0]"

text \<open>\<open>if len(col) > len(l1_ptrn): cnt = len(l1_ptrn) else: cnt = len(col)\<close>\<close>

definition feeder_cnt :: "part list \<Rightarrow> nat" where
  "feeder_cnt col = (if length col > length l1_ptrn then length l1_ptrn else length col)"

text \<open>
  Python's \<open>int(r)\<close> on a float truncates towards zero. The divisions \<open>cnt / 2\<close> and
  \<open>cmp[PART_QTY] / 2\<close> are true divisions; they are modelled in exact arithmetic, which
  is what the floating-point division computes for every quantity below \<open>2^53\<close>.
\<close>

definition py_int :: "real \<Rightarrow> int" where
  "py_int r = (if 0 \<le> r then \<lfloor>r\<rfloor> else \<lceil>r\<rceil>)"

text \<open>
  The loop \<open>for cmp in col\<close> of the splitter. \<open>seen\<close> holds the entries of \<open>col\<close>
  already visited (with the quantity halved in place where the test held), \<open>adders\<close>
  the copies made so far.
\<close>

fun split_scan :: "part list \<Rightarrow> nat \<Rightarrow> part list \<Rightarrow> part list \<Rightarrow> part list \<times> part list" where
  "split_scan [] cnt seen adders = (seen, adders)"
| "split_scan (cmp # rest) cnt seen adders =
     (if real_of_int (qty cmp) > real cnt / 2
      then (let qty0 = qty cmp;
                cmp' = cmp\<lparr>qty := py_int (real_of_int (qty cmp) / 2)\<rparr>;
                item = cmp'\<lparr>qty := qty0 - qty cmp'\<rparr>
            in split_scan rest cnt (seen @ [cmp']) (adders @ [item]))
      else split_scan rest cnt (seen @ [cmp]) adders)"

text \<open>The splitter: the loop, then \<open>for each in adders: col.append(each)\<close>.\<close>

definition splitter :: "part list \<Rightarrow> nat \<Rightarrow> part list" where
  "splitter col cnt = (let (col', adders) = split_scan col cnt [] [] in col' @ adders)"

text \<open>
  \<open>sorted(xs, key=k, reverse=True)\<close>: CPython reverses the list, sorts it with its stable
  sort and reverses the result, so that equal keys keep their original order.
  \<open>sort_key\<close> is the stable insertion sort of the library.
\<close>

definition sorted_reverse :: "('a \<Rightarrow> 'k::linorder) \<Rightarrow> 'a list \<Rightarrow> 'a list" where
  "sorted_reverse k xs = rev (sort_key k (rev xs))"

text \<open>\<open>cl[i].append(l1_ptrn[i])\<close>: the part with the feeder number appended.\<close>

definition add_feeder :: "part \<Rightarrow> nat \<Rightarrow> feeder_entry" where
  "add_feeder p s =
     \<lparr>des = des p, xval = xval p, yval = yval p, aval = aval p, cmb = cmb p, qty = qty p, fdr = s\<rparr>"

text \<open>
  The loop \<open>for i in range(cnt)\<close> that fills \<open>fl\<close>. The entries of \<open>cl\<close> are
  distinct objects (one per aggregated part, one per copy), each gets its feeder number
  once, and \<open>col\<close> and \<open>cl\<close> are not read afterwards, so the entries are modelled
  as values.
\<close>

fun distribute :: "nat list \<Rightarrow> part list \<Rightarrow> feeder_entry list \<Rightarrow> py_error + feeder_entry list" where
  "distribute [] cl fl = Inr fl"
| "distribute (i # is) cl fl =
     (if i < length cl \<and> i < length l1_ptrn
      then distribute is cl (fl @ [add_feeder (cl ! i) (l1_ptrn ! i)])
      else Inl IndexError)"

text \<open>
  From the aggregated list \<open>col\<close> to the list \<open>fls\<close> handed to the optimizer:
  \<open>cnt\<close>, the splitter, the ranking \<open>cl\<close>, the distribution \<open>fl\<close> and the sort in
  feeder order.
\<close>

definition feeder_slots :: "part list \<Rightarrow> py_error + feeder_entry list" where
  "feeder_slots col =
     (let cnt = feeder_cnt col;
          col' = splitter col cnt;
          cl = sorted_reverse qty col'
      in case distribute [0..<cnt] cl [] of
           Inl e \<Rightarrow> Inl e
         | Inr fl \<Rightarrow> Inr (sort_key fdr fl))"

text \<open>
  The feeder list stage up to the end of the while loop, from the main BOM \<open>v\<close>.
  \<open>None\<close> is a run that stays in the loop for ever.
\<close>

definition feeder_table :: "bom_entry list \<Rightarrow> (py_error + feeder_entry list) option" where
  "feeder_table v =
     (let col = create_component_list v in
      case feeder_slots col of
        Inl e \<Rightarrow> Some (Inl e)
      | Inr fls \<Rightarrow> optimize_loop fls (feeder_cnt col))"

text \<open>\<open>s.split("|")\<close>: the pieces of a string between the separators, at least one.\<close>

fun split_on :: "char \<Rightarrow> string \<Rightarrow> string list" where
  "split_on c [] = [[]]"
| "split_on c (x # xs) =
     (if x = c then [] # split_on c xs
      else (case split_on c xs of
              w # ws \<Rightarrow> (x # w) # ws
            | [] \<Rightarrow> [[x]]))"

record feeder_row =
  Feeder :: nat
  Description :: string
  Package :: string
  Count :: int

text \<open>
  One \<open>writerow\<close> of the feeder list: \<open>info = entry[PART_CMB].split("|")\<close>, then the
  columns \<open>entry[PART_FDR]+1\<close>, \<open>info[IX_VAL]\<close>, \<open>info[IX_PAC]\<close>, \<open>entry[PART_QTY]\<close>.
\<close>

definition feeder_row_of :: "feeder_entry \<Rightarrow> py_error + feeder_row" where
  "feeder_row_of entry =
     (let info = split_on CHR ''|'' (cmb entry) in
      if 1 < length info
      then Inr \<lparr>Feeder = fdr entry + 1, Description = info ! 0, Package = info ! 1,
                 Count = qty entry\<rparr>
      else Inl IndexError)"

text \<open>
  The loop \<open>for entry in fls\<close> that writes the rows (the header row is left out). An
  exception leaves the loop with the rows written so far in the file.
\<close>

fun write_rows :: "feeder_entry list \<Rightarrow> feeder_row list \<Rightarrow> feeder_row list \<times> py_error option" where
  "write_rows [] rows = (rows, None)"
| "write_rows (entry # fls) rows =
     (case feeder_row_of entry of
        Inl e \<Rightarrow> (rows, Some e)
      | Inr row \<Rightarrow> write_rows fls (rows @ [row]))"

section \<open>Reading the BOM file and running main\<close>

text \<open>
  The characters \<open>str.split()\<close> and \<open>str.strip()\<close> treat as white space, among the
  ASCII characters.
\<close>

definition is_space :: "char \<Rightarrow> bool" where
  "is_space c = (c \<in> set [CHR '' '', CHR 0x09, CHR 0x0A, CHR 0x0B, CHR 0x0C, CHR 0x0D,
                           CHR 0x1C, CHR 0x1D, CHR 0x1E, CHR 0x1F])"

text \<open>\<open>s.strip().split()\<close>: the maximal runs of characters that are not white space.\<close>

fun split_ws :: "string \<Rightarrow> string \<Rightarrow> string list" where
  "split_ws [] cur = (if cur = [] then [] else [cur])"
| "split_ws (c # cs) cur =
     (if is_space c
      then (if cur = [] then split_ws cs [] else cur # split_ws cs [])
      else split_ws cs (cur @ [c]))"

definition startswith :: "string \<Rightarrow> string \<Rightarrow> bool" where
  "startswith line p = (take (length p) line = p)"

text \<open>
  The body of the read loop for a line that is not filtered: the commas become points, the
  line is split, and the six fields are read by index (\<open>IndexError\<close> on a short line).
\<close>

definition parse_line :: "string \<Rightarrow> py_error + bom_entry" where
  "parse_line line =
     (let noComma = map (\<lambda>c. if c = CHR '','' then CHR ''.'' else c) line;
          ml = split_ws noComma []
      in if 5 < length ml
         then Inr \<lparr>des = ml ! 0, xval = ml ! 1, yval = ml ! 2, aval = ml ! 3,
                    cmb = ml ! 4 @ ''|'' @ ml ! 5\<rparr>
         else Inl IndexError)"

text \<open>
  The loop \<open>for line in f\<close> inside the \<open>try\<close>. An exception leaves the loop; the list
  \<open>v\<close> keeps the entries appended before it.
\<close>

fun read_lines :: "string list \<Rightarrow> bom_entry list \<Rightarrow> bom_entry list \<times> py_error option" where
  "read_lines [] v = (v, None)"
| "read_lines (line # rest) v =
     (if \<not> (startswith line ''TP'' \<or> startswith line ''FID'')
      then (case parse_line line of
              Inl e \<Rightarrow> (v, Some e)
            | Inr nl \<Rightarrow> read_lines rest (v @ [nl]))
      else read_lines rest v)"

text \<open>
  The file system as main sees it: \<open>None\<close> when \<open>open(filename, "r")\<close> raises, else the
  lines of the file.
\<close>

definition read_bom :: "string list option \<Rightarrow> bom_entry list \<times> py_error option" where
  "read_bom file = (case file of None \<Rightarrow> ([], Some OSError) | Some lines \<Rightarrow> read_lines lines [])"

datatype message = CouldNotOpenFile string | ExceptionText py_error

record run_result =
  printed :: "message list"
  feederlist_file :: "feeder_row list option"
  exit_status :: nat

text \<open>
  A run of main with a file name as first argument and the option \<open>-f\<close>. The
  \<open>except\<close> clause prints two lines and execution goes on after the \<open>try\<close> statement
  with the list \<open>v\<close> as it is. An exception of the feeder list stage is not caught: the
  interpreter ends with status 1, before the output file is opened when the optimizer
  raises it. Reaching the end of main gives status 0. The banner and progress lines are
  left out of \<open>printed\<close>, the options \<open>-b\<close> and \<open>-p\<close> are taken as not given,
  and the output file is taken to be writable.
\<close>

definition main_feederlist :: "string \<Rightarrow> string list option \<Rightarrow> run_result option" where
  "main_feederlist filename file =
     (let (v, err) = read_bom file;
          out = (case err of None \<Rightarrow> [] | Some e \<Rightarrow> [CouldNotOpenFile filename, ExceptionText e])
      in case feeder_table v of
           None \<Rightarrow> None
         | Some (Inl e) \<Rightarrow> Some \<lparr>printed = out, feederlist_file = None, exit_status = 1\<rparr>
         | Some (Inr fls) \<Rightarrow>
             (let (rows, werr) = write_rows fls []
              in Some \<lparr>printed = out, feederlist_file = Some rows,
                        exit_status = (if werr = None then 0 else 1)\<rparr>))"

section \<open>Notions used in the statements\<close>

text \<open>An entry after the splitter has visited it, and the copy the splitter appends.\<close>

definition halved :: "nat \<Rightarrow> part \<Rightarrow> part" where
  "halved cnt p = (if int cnt < 2 * qty p then p\<lparr>qty := qty p div 2\<rparr> else p)"

definition remainder :: "part \<Rightarrow> part" where
  "remainder p = p\<lparr>qty := qty p - qty p div 2\<rparr>"

text \<open>The ranked list \<open>cl\<close> and the list \<open>fl\<close> of main, as functions of \<open>col\<close>.\<close>

definition ranked :: "part list \<Rightarrow> part list" where
  "ranked col = sorted_reverse qty (splitter col (feeder_cnt col))"

definition assigned :: "part list \<Rightarrow> feeder_entry list" where
  "assigned col = map (\<lambda>i. add_feeder (ranked col ! i) (l1_ptrn ! i)) [0..<feeder_cnt col]"

text \<open>
  A BOM that aggregates to a given list of parts: each part's line, repeated as often as
  its quantity says.
\<close>

definition bom_line_of :: "part \<Rightarrow> bom_entry" where
  "bom_line_of p = \<lparr>des = des p, xval = xval p, yval = yval p, aval = aval p, cmb = cmb p\<rparr>"

definition expand :: "part list \<Rightarrow> bom_entry list" where
  "expand col = concat (map (\<lambda>p. replicate (nat (qty p)) (bom_line_of p)) col)"

text \<open>
  The pairs of feeder numbers \<open>(s, s + 1)\<close> that two entries of one typeKey have been
  given: the same part on two neighbouring slots of the table.
\<close>

definition slot_collisions :: "feeder_entry list \<Rightarrow> (nat \<times> nat) list" where
  "slot_collisions fls =
     [(fdr a, fdr b). a \<leftarrow> fls, b \<leftarrow> fls, fdr b = fdr a + 1, cmb a = cmb b]"

section \<open>Example inputs\<close>

text \<open>Three resistors of one type, a capacitor and a controller.\<close>

definition bom_swap :: "string list" where
  "bom_swap = [''R1 1 2 0 10k 0402'', ''R2 3 4 90 10k 0402'', ''R3 5 6 0 10k 0402'',
               ''C1 7 8 0 100n 0402'', ''U1 9 10 180 MCU QFN'']"

text \<open>Five resistors of one type and a capacitor.\<close>

definition bom_crash :: "string list" where
  "bom_crash = [''R1 1 2 0 10k 0402'', ''R2 3 4 90 10k 0402'', ''R3 5 6 0 10k 0402'',
                ''R4 7 8 0 10k 0402'', ''R5 9 10 0 10k 0402'', ''C1 11 12 0 100n 0402'']"

text \<open>A complete line followed by a line of three fields.\<close>

definition bom_short :: "string list" where
  "bom_short = [''R1 1 2 0 10k 0402'', ''R2 3 4'']"

definition slot_entry :: "string \<Rightarrow> int \<Rightarrow> nat \<Rightarrow> feeder_entry" where
  "slot_entry k q s =
     \<lparr>des = ''R1'', xval = ''1'', yval = ''2'', aval = ''0'', cmb = k, qty = q, fdr = s\<rparr>"

definition fls_pair :: "feeder_entry list" where
  "fls_pair = [slot_entry ''10k|0402'' 2 18, slot_entry ''10k|0402'' 3 19]"

definition fls_three :: "feeder_entry list" where
  "fls_three = [slot_entry ''10k|0402'' 1 18, slot_entry ''10k|0402'' 2 19,
                slot_entry ''100n|0402'' 1 20]"

definition fls_three' :: "feeder_entry list" where
  "fls_three' = [slot_entry ''10k|0402'' 1 18, slot_entry ''100n|0402'' 1 20,
                 slot_entry ''10k|0402'' 2 19]"

definition fls_same :: "feeder_entry list" where
  "fls_same = [slot_entry ''10k|0402'' 1 18, slot_entry ''10k|0402'' 1 19,
               slot_entry ''10k|0402'' 1 20]"

definition col_swap :: "part list" where
  "col_swap = create_component_list (fst (read_bom (Some bom_swap)))"

text \<open>The aggregation of a BOM of one line.\<close>

definition single :: "part list" where
  "single = create_component_list (fst (read_bom (Some [''R1 1 2 0 10k 0402''])))"

text \<open>Thirty-nine part types, twenty components of each.\<close>

definition col39 :: "part list" where
  "col39 = map (\<lambda>n. \<lparr>des = ''R1'', xval = ''1'', yval = ''2'', aval = ''0'',
                     cmb = replicate (Suc n) CHR ''k'' @ ''|0402'', qty = 20\<rparr>) [0..<39]"

text \<open>The list with which the while loop stops on the BOM \<open>bom_swap\<close>.\<close>

definition table_swap :: "feeder_entry list" where
  "table_swap =
     [\<lparr>des = ''R1'', xval = ''1'', yval = ''2'', aval = ''0'', cmb = ''10k|0402'',
        qty = 1, fdr = 18\<rparr>,
      \<lparr>des = ''C1'', xval = ''7'', yval = ''8'', aval = ''0'', cmb = ''100n|0402'',
        qty = 1, fdr = 20\<rparr>,
      \<lparr>des = ''R1'', xval = ''1'', yval = ''2'', aval = ''0'', cmb = ''10k|0402'',
        qty = 2, fdr = 19\<rparr>]"

section \<open>Aggregation\<close>

lemma count_part_flag:
  "fst (count_part p cs) = (cmb p \<notin> set (map cmb cs))"
  by (induction cs) (auto split: prod.splits)

lemma count_part_keys:
  "map cmb (snd (count_part p cs)) = map cmb cs"
  by (induction cs) (auto split: prod.splits)

lemma count_part_length:
  "length (snd (count_part p cs)) = length cs"
  by (induction cs) (auto split: prod.splits)

lemma count_part_sum_found:
  "cmb p \<in> set (map cmb cs) \<Longrightarrow>
   sum_list (map qty (snd (count_part p cs))) = sum_list (map qty cs) + 1"
  by (induction cs) (auto split: prod.splits)

lemma count_part_unchanged:
  "cmb p \<notin> set (map cmb cs) \<Longrightarrow> snd (count_part p cs) = cs"
  by (induction cs) (auto split: prod.splits)

lemma count_part_positive:
  "\<forall>c \<in> set cs. 1 \<le> qty c \<Longrightarrow> \<forall>c \<in> set (snd (count_part p cs)). 1 \<le> qty c"
  by (induction cs) (auto split: prod.splits)

lemma count_loop_sum:
  "sum_list (map qty (count_loop bs cs)) = sum_list (map qty cs) + int (length bs)"
proof (induction bs arbitrary: cs)
  case Nil
  show ?case by simp
next
  case (Cons p bs)
  show ?case
  proof (cases "cmb p \<in> set (map cmb cs)")
    case True
    then have "fst (count_part p cs) = False"
      by (simp add: count_part_flag)
    then have "count_loop (p # bs) cs = count_loop bs (snd (count_part p cs))"
      by (simp add: case_prod_beta)
    with True show ?thesis
      by (simp add: Cons.IH count_part_sum_found)
  next
    case False
    then have "fst (count_part p cs) = True"
      by (simp add: count_part_flag)
    then have "count_loop (p # bs) cs = count_loop bs (snd (count_part p cs) @ [new_item p])"
      by (simp add: case_prod_beta)
    with False show ?thesis
      by (simp add: Cons.IH count_part_unchanged new_item_def)
  qed
qed

lemma count_loop_positive:
  "\<forall>c \<in> set cs. 1 \<le> qty c \<Longrightarrow> \<forall>c \<in> set (count_loop bs cs). 1 \<le> qty c"
proof (induction bs arbitrary: cs)
  case Nil
  then show ?case by simp
next
  case (Cons p bs)
  have pos: "\<forall>c \<in> set (snd (count_part p cs)). 1 \<le> qty c"
    using Cons.prems by (rule count_part_positive)
  show ?case
  proof (cases "fst (count_part p cs)")
    case True
    then have eq: "count_loop (p # bs) cs = count_loop bs (snd (count_part p cs) @ [new_item p])"
      by (simp add: case_prod_beta)
    have "\<forall>c \<in> set (snd (count_part p cs) @ [new_item p]). 1 \<le> qty c"
      using pos by (simp add: new_item_def)
    then show ?thesis
      unfolding eq by (rule Cons.IH)
  next
    case False
    then have eq: "count_loop (p # bs) cs = count_loop bs (snd (count_part p cs))"
      by (simp add: case_prod_beta)
    show ?thesis
      unfolding eq using pos by (rule Cons.IH)
  qed
qed

lemma remdups_snoc:
  "remdups (xs @ [k]) = filter (\<lambda>j. j \<noteq> k) (remdups xs) @ [k]"
  by (induction xs) auto

lemma first_occurrences_Cons:
  "first_occurrences (k # ks) = k # first_occurrences (filter (\<lambda>j. j \<noteq> k) ks)"
  by (simp add: first_occurrences_def remdups_snoc rev_filter remdups_filter)

lemma count_loop_keys:
  "distinct (map cmb cs) \<Longrightarrow>
   map cmb (count_loop bs cs) =
     map cmb cs @ first_occurrences (filter (\<lambda>k. k \<notin> set (map cmb cs)) (map cmb bs))"
proof (induction bs arbitrary: cs)
  case Nil
  show ?case by (simp add: first_occurrences_def)
next
  case (Cons p bs)
  show ?case
  proof (cases "cmb p \<in> set (map cmb cs)")
    case True
    then have "fst (count_part p cs) = False"
      by (simp add: count_part_flag)
    then have eq: "count_loop (p # bs) cs = count_loop bs (snd (count_part p cs))"
      by (simp add: case_prod_beta)
    have "distinct (map cmb (snd (count_part p cs)))"
      using Cons.prems by (simp add: count_part_keys)
    from Cons.IH [OF this] True show ?thesis
      unfolding eq by (simp add: count_part_keys)
  next
    case False
    then have "fst (count_part p cs) = True"
      by (simp add: count_part_flag)
    then have eq: "count_loop (p # bs) cs = count_loop bs (cs @ [new_item p])"
      using False by (simp add: case_prod_beta count_part_unchanged)
    have d: "distinct (map cmb (cs @ [new_item p]))"
      using Cons.prems False by (simp add: new_item_def)
    have f: "filter (\<lambda>k. k \<notin> set (map cmb (cs @ [new_item p]))) (map cmb bs) =
             filter (\<lambda>j. j \<noteq> cmb p) (filter (\<lambda>k. k \<notin> set (map cmb cs)) (map cmb bs))"
      by (auto simp: new_item_def intro: filter_cong)
    from Cons.IH [OF d] False show ?thesis
      unfolding eq f by (simp add: first_occurrences_Cons new_item_def)
  qed
qed

text \<open>
  C7. After aggregation and before any splitting, the quantities of the aggregated parts
  add up to the number of input records (the records that ingestion did not filter out),
  there is exactly one part per distinct typeKey, the parts stand in the order in which
  their typeKeys first occur in the input, and every quantity is at least 1.
\<close>

theorem create_component_list_conservation:
  "sum_list (map qty (create_component_list bomlist)) = int (length bomlist)
   \<and> distinct (map cmb (create_component_list bomlist))
   \<and> map cmb (create_component_list bomlist) = first_occurrences (map cmb bomlist)
   \<and> (\<forall>c \<in> set (create_component_list bomlist). 1 \<le> qty c)"
proof -
  have keys: "map cmb (create_component_list bomlist) = first_occurrences (map cmb bomlist)"
    using count_loop_keys [of "[]" bomlist] by (simp add: create_component_list_def)
  have "distinct (first_occurrences (map cmb bomlist))"
    by (simp add: first_occurrences_def)
  with keys have dist: "distinct (map cmb (create_component_list bomlist))"
    by simp
  have total: "sum_list (map qty (create_component_list bomlist)) = int (length bomlist)"
    by (simp add: create_component_list_def count_loop_sum)
  have pos: "\<forall>c \<in> set (create_component_list bomlist). 1 \<le> qty c"
    using count_loop_positive [of "[]" bomlist] by (simp add: create_component_list_def)
  from total dist keys pos show ?thesis by blast
qed

theorem create_component_list_conservation_witness:
  "map qty (create_component_list (fst (read_bom (Some bom_swap)))) = [3, 1, 1]
   \<and> map cmb (create_component_list (fst (read_bom (Some bom_swap))))
       = [''10k|0402'', ''100n|0402'', ''MCU|QFN'']
   \<and> sum_list (map qty (create_component_list (fst (read_bom (Some bom_swap)))))
       = int (length (fst (read_bom (Some bom_swap))))"
proof -
  have "sum_list (map qty (create_component_list (fst (read_bom (Some bom_swap)))))
        = int (length (fst (read_bom (Some bom_swap))))"
    using create_component_list_conservation [of "fst (read_bom (Some bom_swap))"] by blast
  moreover have "map qty (create_component_list (fst (read_bom (Some bom_swap)))) = [3, 1, 1]"
    by code_simp
  moreover have "map cmb (create_component_list (fst (read_bom (Some bom_swap))))
       = [''10k|0402'', ''100n|0402'', ''MCU|QFN'']"
    by code_simp
  ultimately show ?thesis by blast
qed

section \<open>One pass of the optimizer\<close>

lemma swap_entries_Inr:
  "swap_entries j k xs = Inr ys \<Longrightarrow>
   j < length xs \<and> k < length xs \<and> ys = xs[j := xs ! k, k := xs ! j]"
  by (auto simp: swap_entries_def Let_def split: if_splits)

lemma swap_entries_Inl: "swap_entries j k xs = Inl e \<Longrightarrow> e = IndexError"
  by (auto simp: swap_entries_def Let_def split: if_splits)

lemma swap_entries_mset: "swap_entries j k xs = Inr ys \<Longrightarrow> mset ys = mset xs"
  by (auto dest!: swap_entries_Inr simp: mset_swap)

lemma opt_step_Inl: "opt_step i st = Inl e \<Longrightarrow> e = IndexError"
  by (auto simp: opt_step_def split: prod.splits if_splits sum.splits dest: swap_entries_Inl)

lemma opt_step_mset: "opt_step i (xs, u) = Inr (ys, u') \<Longrightarrow> mset ys = mset xs"
  by (auto simp: opt_step_def split: if_splits sum.splits dest: swap_entries_mset)

lemma opt_step_quiet:
  "opt_step i (xs, u) = Inr (ys, False) \<Longrightarrow>
   ys = xs \<and> \<not> u \<and> i + 1 < length xs \<and> cmb (xs ! i) \<noteq> cmb (xs ! (i + 1))"
  by (auto simp: opt_step_def split: if_splits sum.splits)

lemma opt_scan_Inl: "opt_scan is st = Inl e \<Longrightarrow> e = IndexError"
  by (induction "is" arbitrary: st) (auto split: sum.splits dest: opt_step_Inl)

lemma opt_scan_mset: "opt_scan is (xs, u) = Inr (ys, u') \<Longrightarrow> mset ys = mset xs"
proof (induction "is" arbitrary: xs u)
  case Nil
  then show ?case by simp
next
  case (Cons i "is")
  then obtain zs w where s: "opt_step i (xs, u) = Inr (zs, w)" and r: "opt_scan is (zs, w) = Inr (ys, u')"
    by (auto split: sum.splits)
  from Cons.IH [OF r] opt_step_mset [OF s] show ?case by simp
qed

lemma opt_scan_quiet:
  "opt_scan is (xs, u) = Inr (ys, False) \<Longrightarrow>
   ys = xs \<and> \<not> u \<and> (\<forall>i \<in> set is. i + 1 < length xs \<and> cmb (xs ! i) \<noteq> cmb (xs ! (i + 1)))"
proof (induction "is" arbitrary: xs u)
  case Nil
  then show ?case by simp
next
  case (Cons i "is")
  then obtain zs w where s: "opt_step i (xs, u) = Inr (zs, w)" and r: "opt_scan is (zs, w) = Inr (ys, False)"
    by (auto split: sum.splits)
  from Cons.IH [OF r] have a: "ys = zs" "\<not> w"
    and b: "\<forall>i \<in> set is. i + 1 < length zs \<and> cmb (zs ! i) \<noteq> cmb (zs ! (i + 1))"
    by auto
  from s a have "opt_step i (xs, u) = Inr (zs, False)" by simp
  from opt_step_quiet [OF this] a b show ?case by auto
qed

lemma collisions_take_empty:
  assumes "\<forall>i. i + 1 < cnt \<longrightarrow> i + 1 < length xs \<and> cmb (xs ! i) \<noteq> cmb (xs ! (i + 1))"
  shows "collisions (take cnt xs) = []"
  using assms by (auto simp: collisions_def filter_empty_conv)

lemma quiet_pass:
  assumes "optimize_part_list fls cnt = Inr (fls', False)"
  shows "fls' = fls \<and> collisions (take cnt fls') = []"
proof -
  from assms have "opt_scan [0..<cnt - 1] (fls, False) = Inr (fls', False)"
    by (simp add: optimize_part_list_def)
  from opt_scan_quiet [OF this]
  have eq: "fls' = fls"
    and free: "\<forall>i \<in> set [0..<cnt - 1]. i + 1 < length fls \<and> cmb (fls ! i) \<noteq> cmb (fls ! (i + 1))"
    by auto
  from free have "\<forall>i. i + 1 < cnt \<longrightarrow> i + 1 < length fls \<and> cmb (fls ! i) \<noteq> cmb (fls ! (i + 1))"
    by auto
  then have "collisions (take cnt fls) = []"
    by (rule collisions_take_empty)
  with eq show ?thesis by simp
qed

lemma adj_eq_append: "adj_eq (xs @ y # ys) = adj_eq (xs @ [y]) + adj_eq (y # ys)"
  by (induction xs rule: adj_eq.induct) auto

lemma adj_eq_fresh_snoc: "a \<notin> set xs \<Longrightarrow> adj_eq (xs @ [a]) = adj_eq xs"
  by (induction xs rule: adj_eq.induct) auto

lemma adj_eq_snoc_ge: "adj_eq xs \<le> adj_eq (xs @ [a])"
  by (induction xs rule: adj_eq.induct) auto

lemma adj_eq_fresh_Cons: "a \<notin> set xs \<Longrightarrow> adj_eq (a # xs) = adj_eq xs"
  by (cases xs) auto

lemma adj_eq_Cons_ge: "adj_eq xs \<le> adj_eq (a # xs)"
  by (cases xs) auto

lemma twice_fresh:
  assumes "at_most_twice (pre @ mid @ post)" "count_list mid a = 2"
  shows "a \<notin> set pre \<and> a \<notin> set post"
proof -
  have "a \<in> set mid" using assms(2) by (metis count_list_0_iff zero_neq_numeral)
  then have "count_list (pre @ mid @ post) a \<le> 2"
    using assms(1) by (simp add: at_most_twice_def)
  then have "count_list pre a = 0 \<and> count_list post a = 0"
    using assms(2) by simp
  then show ?thesis by (simp add: count_list_0_iff)
qed

lemma swap_up_keys:
  assumes ks: "ks = pre @ a # a # u # post" and tw: "at_most_twice ks"
  shows "adj_eq (pre @ a # u # a # post) < adj_eq ks"
proof -
  have "at_most_twice (pre @ [a, a] @ (u # post))" using ks tw by simp
  then have "a \<notin> set pre \<and> a \<notin> set (u # post)"
    by (rule twice_fresh) simp
  then have f: "a \<notin> set pre" "a \<noteq> u" "a \<notin> set post" by auto
  have before: "adj_eq ks = adj_eq pre + 1 + adj_eq (u # post)"
    using f unfolding ks by (simp add: adj_eq_append [of pre a "a # u # post"] adj_eq_fresh_snoc)
  have after: "adj_eq (pre @ a # u # a # post) = adj_eq pre + adj_eq post"
    using f by (simp add: adj_eq_append [of pre a "u # a # post"] adj_eq_fresh_snoc adj_eq_fresh_Cons)
  from before after adj_eq_Cons_ge [of post u] show ?thesis by simp
qed

lemma swap_down_keys:
  assumes ks: "ks = pre @ u # a # a # post" and tw: "at_most_twice ks"
  shows "adj_eq (pre @ a # u # a # post) < adj_eq ks"
proof -
  have "at_most_twice ((pre @ [u]) @ [a, a] @ post)" using ks tw by simp
  then have "a \<notin> set (pre @ [u]) \<and> a \<notin> set post"
    by (rule twice_fresh) simp
  then have f: "a \<notin> set pre" "a \<noteq> u" "a \<notin> set post" by auto
  have before: "adj_eq ks = adj_eq (pre @ [u]) + 1 + adj_eq post"
    using f unfolding ks by (simp add: adj_eq_append [of pre u "a # a # post"] adj_eq_fresh_Cons)
  have after: "adj_eq (pre @ a # u # a # post) = adj_eq pre + adj_eq post"
    using f by (simp add: adj_eq_append [of pre a "u # a # post"] adj_eq_fresh_snoc adj_eq_fresh_Cons)
  from before after adj_eq_snoc_ge [of pre u] show ?thesis by simp
qed

lemma split_three:
  assumes "p + 2 < length ks"
  shows "ks = take p ks @ ks ! p # ks ! (p + 1) # ks ! (p + 2) # drop (p + 3) ks"
proof -
  have "drop p ks = ks ! p # drop (Suc p) ks"
    using assms by (simp add: Cons_nth_drop_Suc)
  moreover have "drop (Suc p) ks = ks ! (p + 1) # drop (Suc (Suc p)) ks"
    using assms by (simp add: Cons_nth_drop_Suc)
  moreover have "drop (Suc (Suc p)) ks = ks ! (p + 2) # drop (p + 3) ks"
    using assms by (simp add: Cons_nth_drop_Suc numeral_3_eq_3)
  ultimately have "drop p ks = ks ! p # ks ! (p + 1) # ks ! (p + 2) # drop (p + 3) ks"
    by simp
  then show ?thesis
    by (metis append_take_drop_id)
qed

lemma update_three:
  assumes "length pre = p"
  shows "(pre @ x # y # z # post)[p + 2 := y, p + 1 := z] = pre @ x # z # y # post"
    and "(pre @ x # y # z # post)[p := y, p + 1 := x] = pre @ y # x # z # post"
  using assms by (simp_all add: list_update_append)

lemma swap_up_decreases:
  assumes len: "i + 2 < length ks" and coll: "ks ! i = ks ! (i + 1)" and tw: "at_most_twice ks"
  shows "adj_eq (ks[i + 2 := ks ! (i + 1), i + 1 := ks ! (i + 2)]) < adj_eq ks"
proof -
  define pre where "pre = take i ks"
  define post where "post = drop (i + 3) ks"
  have lp: "length pre = i" using len by (simp add: pre_def)
  have ks: "ks = pre @ ks ! i # ks ! i # ks ! (i + 2) # post"
    using split_three [OF len] coll by (simp add: pre_def post_def)
  have "ks[i + 2 := ks ! (i + 1), i + 1 := ks ! (i + 2)] =
        (pre @ ks ! i # ks ! i # ks ! (i + 2) # post)[i + 2 := ks ! i, i + 1 := ks ! (i + 2)]"
    using ks coll by simp
  also have "\<dots> = pre @ ks ! i # ks ! (i + 2) # ks ! i # post"
    by (rule update_three(1) [OF lp])
  finally show ?thesis
    using swap_up_keys [OF ks tw] by simp
qed

lemma swap_down_decreases:
  assumes pos: "0 < i" and len: "i + 1 < length ks" and coll: "ks ! i = ks ! (i + 1)"
    and tw: "at_most_twice ks"
  shows "adj_eq (ks[i - 1 := ks ! i, i := ks ! (i - 1)]) < adj_eq ks"
proof -
  obtain p where i: "i = p + 1" using pos by (cases i) auto
  define pre where "pre = take p ks"
  define post where "post = drop (p + 3) ks"
  have lp: "length pre = p" using len i by (simp add: pre_def)
  have len': "p + 2 < length ks" using len i by simp
  have ks: "ks = pre @ ks ! p # ks ! i # ks ! i # post"
    using split_three [OF len'] coll i by (simp add: pre_def post_def)
  have "ks[i - 1 := ks ! i, i := ks ! (i - 1)] =
        (pre @ ks ! p # ks ! i # ks ! i # post)[p := ks ! i, p + 1 := ks ! p]"
    using ks i by simp
  also have "\<dots> = pre @ ks ! i # ks ! p # ks ! i # post"
    by (rule update_three(2) [OF lp])
  finally show ?thesis
    using swap_down_keys [OF ks tw] by simp
qed

lemma at_most_twice_mset:
  assumes "mset ks' = mset ks" "at_most_twice ks"
  shows "at_most_twice ks'"
proof -
  have "count_list ks' k = count_list ks k" for k
    using assms(1) by (metis count_mset)
  moreover have "set ks' = set ks"
    using assms(1) by (rule mset_eq_setD)
  ultimately show ?thesis
    using assms(2) by (simp add: at_most_twice_def)
qed

lemma swap_entries_keys:
  assumes "swap_entries j k xs = Inr ys"
  shows "map cmb ys = (map cmb xs)[j := map cmb xs ! k, k := map cmb xs ! j]"
  using swap_entries_Inr [OF assms] by (simp add: map_update)

lemma opt_step_progress:
  assumes step: "opt_step i (xs, u) = Inr (ys, u')" and tw: "at_most_twice (map cmb xs)"
  shows "(ys = xs \<and> u' = u) \<or> (u' \<and> adj_eq (map cmb ys) < adj_eq (map cmb xs))"
proof (cases "i + 1 < length xs \<and> cmb (xs ! i) = cmb (xs ! (i + 1))")
  case False
  with step show ?thesis
    by (auto simp: opt_step_def split: if_splits)
next
  case True
  then have coll: "map cmb xs ! i = map cmb xs ! (i + 1)" by simp
  show ?thesis
  proof (cases "(i \<le> 17 \<and> i \<noteq> 0) \<or> (\<not> i \<le> 17 \<and> i = 36)")
    case down: True
    with step True have sw: "swap_entries (i - 1) i xs = Inr ys" and u': "u'"
      by (auto simp: opt_step_def split: if_splits sum.splits)
    from down have "0 < i" by auto
    moreover from True have "i + 1 < length (map cmb xs)" by simp
    ultimately have "adj_eq ((map cmb xs)[i - 1 := map cmb xs ! i, i := map cmb xs ! (i - 1)])
        < adj_eq (map cmb xs)"
      using coll tw by (rule swap_down_decreases)
    with sw u' show ?thesis
      by (simp add: swap_entries_keys)
  next
    case up: False
    with step True have sw: "swap_entries (i + 2) (i + 1) xs = Inr ys" and u': "u'"
      by (auto simp: opt_step_def split: if_splits sum.splits)
    from swap_entries_Inr [OF sw] have "i + 2 < length (map cmb xs)" by simp
    then have "adj_eq ((map cmb xs)[i + 2 := map cmb xs ! (i + 1), i + 1 := map cmb xs ! (i + 2)])
        < adj_eq (map cmb xs)"
      using coll tw by (rule swap_up_decreases)
    with sw u' show ?thesis
      by (simp add: swap_entries_keys)
  qed
qed

lemma opt_scan_progress:
  assumes "opt_scan is (xs, u) = Inr (ys, u')" "at_most_twice (map cmb xs)"
  shows "adj_eq (map cmb ys) \<le> adj_eq (map cmb xs) \<and>
         (u' \<longrightarrow> u \<or> adj_eq (map cmb ys) < adj_eq (map cmb xs))"
  using assms
proof (induction "is" arbitrary: xs u)
  case Nil
  then show ?case by simp
next
  case (Cons i "is")
  from Cons.prems(1) obtain zs w
    where s: "opt_step i (xs, u) = Inr (zs, w)" and r: "opt_scan is (zs, w) = Inr (ys, u')"
    by (auto split: sum.splits)
  have "mset (map cmb zs) = mset (map cmb xs)"
    using opt_step_mset [OF s] by (metis mset_map)
  then have tw: "at_most_twice (map cmb zs)"
    using Cons.prems(2) by (rule at_most_twice_mset)
  from Cons.IH [OF r tw] opt_step_progress [OF s Cons.prems(2)] show ?case
    by auto
qed

lemma optimize_part_list_progress:
  assumes "optimize_part_list fls cnt = Inr (fls', True)" "at_most_twice (map cmb fls)"
  shows "adj_eq (map cmb fls') < adj_eq (map cmb fls) \<and> at_most_twice (map cmb fls')"
proof -
  from assms(1) have scan: "opt_scan [0..<cnt - 1] (fls, False) = Inr (fls', True)"
    by (simp add: optimize_part_list_def)
  from opt_scan_progress [OF scan assms(2)]
  have "adj_eq (map cmb fls') < adj_eq (map cmb fls)" by simp
  moreover have "mset (map cmb fls') = mset (map cmb fls)"
    using opt_scan_mset [OF scan] by (metis mset_map)
  then have "at_most_twice (map cmb fls')"
    using assms(2) by (rule at_most_twice_mset)
  ultimately show ?thesis by simp
qed

lemma optimize_loop_returns:
  assumes "at_most_twice (map cmb fls)"
  shows "\<exists>r. optimize_loop fls cnt = Some r \<and>
           (case r of Inl e \<Rightarrow> e = IndexError
            | Inr fls' \<Rightarrow> mset fls' = mset fls \<and> collisions (take cnt fls') = [])"
  using assms
proof (induction "adj_eq (map cmb fls)" arbitrary: fls rule: less_induct)
  case less
  show ?case
  proof (cases "optimize_part_list fls cnt")
    case (Inl e)
    then have "e = IndexError"
      by (auto simp: optimize_part_list_def dest: opt_scan_Inl)
    with Inl show ?thesis
      by (subst optimize_loop.simps) simp
  next
    case (Inr st)
    obtain fls' updated where st: "st = (fls', updated)" by (cases st)
    have ms: "mset fls' = mset fls"
      using Inr st by (auto simp: optimize_part_list_def dest: opt_scan_mset)
    show ?thesis
    proof (cases updated)
      case False
      with Inr st have "optimize_part_list fls cnt = Inr (fls', False)" by simp
      then have q: "fls' = fls" "collisions (take cnt fls') = []"
        by (auto dest: quiet_pass)
      have "optimize_loop fls cnt = Some (Inr fls')"
        using Inr st False by (subst optimize_loop.simps) simp
      with q show ?thesis by simp
    next
      case True
      with Inr st have pass: "optimize_part_list fls cnt = Inr (fls', True)" by simp
      from optimize_part_list_progress [OF pass less.prems]
      have dec: "adj_eq (map cmb fls') < adj_eq (map cmb fls)" and tw: "at_most_twice (map cmb fls')"
        by auto
      from less.hyps [OF dec tw] obtain r where
        r: "optimize_loop fls' cnt = Some r"
           "case r of Inl e \<Rightarrow> e = IndexError
            | Inr fls'' \<Rightarrow> mset fls'' = mset fls' \<and> collisions (take cnt fls'') = []"
        by blast
      have "optimize_loop fls cnt = Some r"
        using pass r(1) by (subst optimize_loop.simps) simp
      with r(2) ms show ?thesis
        by (auto split: sum.splits)
    qed
  qed
qed

section \<open>The optimizer loop on examples\<close>

lemma pass_three: "optimize_part_list fls_three 3 = Inr (fls_three', True)"
  by code_simp

lemma pass_three': "optimize_part_list fls_three' 3 = Inr (fls_three', False)"
  by code_simp

lemma loop_three: "optimize_loop fls_three 3 = Some (Inr fls_three')"
  by code_simp

lemma pass_same:
  assumes "cmb a = cmb b" "cmb b = cmb c"
  shows "optimize_part_list [a, b, c] 3 = Inr ([c, a, b], True)"
proof -
  have s0: "opt_step 0 ([a, b, c], False) = Inr ([a, c, b], True)"
    using assms by (simp add: opt_step_def swap_entries_def)
  have s1: "opt_step (Suc 0) ([a, c, b], True) = Inr ([c, a, b], True)"
    using assms by (simp add: opt_step_def swap_entries_def)
  have "[0..<3 - 1] = [0, 1::nat]"
    by (simp add: upt_rec)
  then show ?thesis
    by (simp add: optimize_part_list_def s0 s1)
qed

lemma passes_three: "run_passes 2 fls_three 3 = Inr fls_three'"
  by code_simp

section \<open>Results of the optimizer loop\<close>

lemma optimize_loop_result:
  assumes "optimize_loop fls cnt = Some (Inr fls')"
  shows "mset fls' = mset fls \<and> collisions (take cnt fls') = []"
proof -
  have "\<forall>ys. r = Inr ys \<longrightarrow> mset ys = mset xs \<and> collisions (take c ys) = []"
    if "optimize_loop xs c = Some r" for xs :: "'a entry list" and c r
  proof (rule optimize_loop.raw_induct
      [where P = "\<lambda>xs c r. \<forall>ys. r = Inr ys \<longrightarrow> mset ys = mset xs \<and> collisions (take c ys) = []",
        OF _ that])
    fix f :: "'a entry list \<Rightarrow> nat \<Rightarrow> (py_error + 'a entry list) option"
    fix xs c r
    assume IH: "\<And>xs c r. f xs c = Some r \<Longrightarrow>
        \<forall>ys. r = Inr ys \<longrightarrow> mset ys = mset xs \<and> collisions (take c ys) = []"
    assume eq: "(case optimize_part_list xs c of
          Inl e \<Rightarrow> Some (Inl e)
        | Inr (fls', updated) \<Rightarrow> if updated then f fls' c else Some (Inr fls')) = Some r"
    show "\<forall>ys. r = Inr ys \<longrightarrow> mset ys = mset xs \<and> collisions (take c ys) = []"
    proof (cases "optimize_part_list xs c")
      case (Inl e)
      with eq show ?thesis by auto
    next
      case (Inr st)
      obtain zs u where st: "st = (zs, u)" by (cases st)
      have ms: "mset zs = mset xs"
        using Inr st by (auto simp: optimize_part_list_def dest: opt_scan_mset)
      show ?thesis
      proof (cases u)
        case True
        with eq Inr st have "f zs c = Some r" by simp
        from IH [OF this] ms show ?thesis by simp
      next
        case False
        with Inr st have "optimize_part_list xs c = Inr (zs, False)" by simp
        then have "zs = xs" and "collisions (take c zs) = []"
          by (auto dest: quiet_pass)
        moreover from eq Inr st False have "r = Inr zs" by simp
        ultimately show ?thesis by auto
      qed
    qed
  qed
  with assms show ?thesis by blast
qed

text \<open>
  The optimizer exchanges list entries and never writes \<open>PART_FDR\<close>, so the pairs of
  neighbouring slots that carry one typeKey are the same after the loop as before it.
\<close>

lemma slot_collisions_set:
  "set (slot_collisions fls) =
     {(fdr a, fdr b) | a b. a \<in> set fls \<and> b \<in> set fls \<and> fdr b = fdr a + 1 \<and> cmb a = cmb b}"
  by (auto simp: slot_collisions_def)

lemma slot_collisions_mset:
  "mset fls' = mset fls \<Longrightarrow> set (slot_collisions fls') = set (slot_collisions fls)"
proof -
  assume "mset fls' = mset fls"
  then have "set fls' = set fls" by (rule mset_eq_setD)
  then show ?thesis by (simp only: slot_collisions_set)
qed

lemma slot_collisions_optimize_loop:
  assumes "optimize_loop fls cnt = Some (Inr fls')"
  shows "set (slot_collisions fls') = set (slot_collisions fls)"
proof -
  from optimize_loop_result [OF assms] have "mset fls' = mset fls" by simp
  then show ?thesis by (rule slot_collisions_mset)
qed

text \<open>
  C2. The claim is that a pass without a swap leaves no two neighbours with the same
  typeKey among the first \<open>cnt\<close> list entries, and that hence, when the while loop stops,
  no two slot-adjacent assignments share a typeKey. The first half holds of the list
  (\<open>quiet_pass\<close>, \<open>optimize_loop_result\<close>). The second half fails: the slot of an
  assignment is its \<open>PART_FDR\<close>, which no swap changes. On the BOM \<open>bom_swap\<close> the
  loop stops with the list \<open>table_swap\<close>; a further pass makes no swap and the list has
  no two neighbours of one typeKey, yet the two entries of \<open>10k|0402\<close> sit on the
  adjacent slots 18 and 19.
\<close>

theorem same_part_on_adjacent_slots:
  "feeder_table (fst (read_bom (Some bom_swap))) = Some (Inr table_swap)
   \<and> optimize_part_list table_swap 3 = Inr (table_swap, False)
   \<and> collisions table_swap = []
   \<and> slot_collisions table_swap = [(18, 19)]"
  by code_simp

lemma run_passes_mset: "run_passes n fls cnt = Inr fls' \<Longrightarrow> mset fls' = mset fls"
proof (induction n arbitrary: fls)
  case 0
  then show ?case by simp
next
  case (Suc n)
  then obtain zs u where p: "optimize_part_list fls cnt = Inr (zs, u)" and r: "run_passes n zs cnt = Inr fls'"
    by (auto split: sum.splits)
  from p have "mset zs = mset fls"
    by (auto simp: optimize_part_list_def dest: opt_scan_mset)
  with Suc.IH [OF r] show ?case by simp
qed

text \<open>
  C10. The optimizer only reorders: after one pass, after any number of passes and when
  the while loop stops, the list holds the same entries, each as often as before, so no
  field of an entry (the part data, the feeder number) has been changed.
\<close>

theorem optimizer_only_reorders:
  "(optimize_part_list fls cnt = Inr (fls1, updated) \<longrightarrow> mset fls1 = mset fls)
   \<and> (run_passes n fls cnt = Inr fls2 \<longrightarrow> mset fls2 = mset fls)
   \<and> (optimize_loop fls cnt = Some (Inr fls3) \<longrightarrow> mset fls3 = mset fls)"
proof -
  have "optimize_part_list fls cnt = Inr (fls1, updated) \<Longrightarrow> mset fls1 = mset fls"
    by (auto simp: optimize_part_list_def dest: opt_scan_mset)
  then show ?thesis
    using run_passes_mset [of n fls cnt fls2] optimize_loop_result [of fls cnt fls3] by blast
qed

theorem optimizer_only_reorders_witness:
  "optimize_part_list fls_three 3 = Inr (fls_three', True)
   \<and> run_passes 2 fls_three 3 = Inr fls_three'
   \<and> optimize_loop fls_three 3 = Some (Inr fls_three')
   \<and> mset fls_three' = mset fls_three"
proof -
  note h1 = pass_three and h2 = passes_three and h3 = loop_three
  from optimizer_only_reorders [of fls_three 3 fls_three' True 2 fls_three' fls_three'] h1
  have "mset fls_three' = mset fls_three" by blast
  with h1 h2 h3 show ?thesis by blast
qed

text \<open>
  On a full table, a list of 38 entries with \<open>cnt = 38\<close>, no pass reads outside the
  list: the special cases \<open>i == 0\<close> and \<open>i == 36\<close> are the first and the last pair
  of such a list.
\<close>

lemma opt_step_full_table:
  assumes "length xs = 38" "i < 37"
  shows "\<exists>ys u'. opt_step i (xs, u) = Inr (ys, u') \<and> length ys = 38"
  using assms by (auto simp: opt_step_def swap_entries_def Let_def)

lemma opt_scan_full_table:
  "length xs = 38 \<Longrightarrow> \<forall>i \<in> set is. i < 37 \<Longrightarrow>
   \<exists>ys u'. opt_scan is (xs, u) = Inr (ys, u') \<and> length ys = 38"
proof (induction "is" arbitrary: xs u)
  case Nil
  then show ?case by simp
next
  case (Cons i "is")
  from Cons.prems have "i < 37" by simp
  with Cons.prems(1) obtain zs w where s: "opt_step i (xs, u) = Inr (zs, w)" and l: "length zs = 38"
    using opt_step_full_table by blast
  from Cons.prems(2) have "\<forall>i \<in> set is. i < 37" by simp
  from Cons.IH [OF l this, of w] s show ?case by simp
qed

lemma optimize_part_list_full_table:
  "length bomlist = 38 \<Longrightarrow> \<exists>r. optimize_part_list bomlist 38 = Inr r"
  using opt_scan_full_table [of bomlist "[0..<37]" False]
  by (auto simp: optimize_part_list_def)

text \<open>
  C4. The claim is that every index the optimizer reads lies in the list. For the list
  \<open>fls_pair\<close> of two entries of one typeKey and \<open>cnt = 2\<close> the collision at position 0
  makes the optimizer read \<open>bomlist[2]\<close>, which raises \<open>IndexError\<close>; main builds this
  list from the file \<open>bom_crash\<close> and ends with status 1 without a feeder list.
\<close>

theorem optimize_part_list_index_error:
  "optimize_part_list fls_pair (length fls_pair) = Inl IndexError
   \<and> feeder_slots (create_component_list (fst (read_bom (Some bom_crash)))) = Inr fls_pair
   \<and> main_feederlist ''bom.txt'' (Some bom_crash)
       = Some \<lparr>printed = [], feederlist_file = None, exit_status = 1\<rparr>"
  by code_simp

section \<open>The splitter\<close>

lemma over_half_iff: "(real_of_int q > real cnt / 2) = (int cnt < 2 * q)"
proof -
  have "(real_of_int q > real cnt / 2) = (real_of_int (int cnt) < real_of_int (2 * q))"
    by (simp add: field_simps)
  also have "\<dots> = (int cnt < 2 * q)"
    by (rule of_int_less_iff)
  finally show ?thesis .
qed

lemma py_int_half: "0 \<le> q \<Longrightarrow> py_int (real_of_int q / 2) = q div 2"
proof -
  assume "0 \<le> q"
  then have "py_int (real_of_int q / 2) = \<lfloor>real_of_int q / real_of_int 2\<rfloor>"
    by (simp add: py_int_def)
  also have "\<dots> = q div 2"
    by (rule floor_divide_of_int_eq)
  finally show ?thesis .
qed

lemma split_scan_eq:
  "split_scan col cnt seen adders =
     (seen @ map (halved cnt) col,
      adders @ map remainder (filter (\<lambda>p. int cnt < 2 * qty p) col))"
proof (induction col arbitrary: seen adders)
  case Nil
  show ?case by simp
next
  case (Cons p col)
  show ?case
  proof (cases "int cnt < 2 * qty p")
    case True
    then have "0 \<le> qty p" by simp
    with True show ?thesis
      by (simp add: Cons.IH over_half_iff py_int_half halved_def remainder_def Let_def)
  next
    case False
    then show ?thesis
      by (simp add: Cons.IH over_half_iff halved_def)
  qed
qed

lemma splitter_eq:
  "splitter col cnt =
     map (halved cnt) col @ map remainder (filter (\<lambda>p. int cnt < 2 * qty p) col)"
  by (simp add: splitter_def split_scan_eq)

lemma filter_same_key:
  "distinct (map cmb col) \<Longrightarrow> p \<in> set col \<Longrightarrow> filter (\<lambda>e. cmb e = cmb p) col = [p]"
proof (induction col)
  case Nil
  then show ?case by simp
next
  case (Cons c col)
  show ?case
  proof (cases "p = c")
    case True
    have "cmb c \<notin> cmb ` set col"
      using Cons.prems(1) by simp
    then have "\<forall>e \<in> set col. cmb e \<noteq> cmb c"
      by (metis image_eqI)
    then have "filter (\<lambda>e. cmb e = cmb c) col = []"
      by (simp add: filter_empty_conv)
    with True show ?thesis by simp
  next
    case False
    with Cons.prems have "p \<in> set col" "cmb c \<noteq> cmb p" by auto
    with Cons show ?thesis by simp
  qed
qed

lemma cmb_halved [simp]: "cmb (halved cnt e) = cmb e"
  by (simp add: halved_def)

lemma cmb_remainder [simp]: "cmb (remainder e) = cmb e"
  by (simp add: remainder_def)

lemma split_entries:
  assumes "distinct (map cmb col)" "p \<in> set col"
  shows "filter (\<lambda>e. cmb e = cmb p) (splitter col cnt) =
         (if int cnt < 2 * qty p then [p\<lparr>qty := qty p div 2\<rparr>, p\<lparr>qty := qty p - qty p div 2\<rparr>]
          else [p])"
proof -
  have same: "filter (\<lambda>e. cmb e = cmb p) col = [p]"
    using assms by (rule filter_same_key)
  have a: "filter (\<lambda>e. cmb e = cmb p) (map (halved cnt) col) = [halved cnt p]"
    using same by (simp add: filter_map comp_def)
  have "filter (\<lambda>e. cmb e = cmb p) (map remainder (filter (\<lambda>p. int cnt < 2 * qty p) col))
        = map remainder (filter (\<lambda>p. int cnt < 2 * qty p) (filter (\<lambda>e. cmb e = cmb p) col))"
    by (simp add: filter_map comp_def conj_commute)
  also have "\<dots> = (if int cnt < 2 * qty p then [remainder p] else [])"
    by (simp add: same)
  finally show ?thesis
    using a by (simp add: splitter_eq halved_def remainder_def)
qed

subsection \<open>Every list of parts is an aggregation\<close>

lemma count_part_last:
  "cmb e \<notin> set (map cmb cs) \<Longrightarrow> cmb c = cmb e \<Longrightarrow>
   count_part e (cs @ [c]) = (False, cs @ [c\<lparr>qty := qty c + 1\<rparr>])"
  by (induction cs) auto

lemma count_loop_found:
  "cmb e \<in> set (map cmb cs) \<Longrightarrow> count_loop (e # bs) cs = count_loop bs (snd (count_part e cs))"
  by (simp add: case_prod_beta count_part_flag)

lemma count_loop_new:
  "cmb e \<notin> set (map cmb cs) \<Longrightarrow> count_loop (e # bs) cs = count_loop bs (cs @ [new_item e])"
  by (simp add: case_prod_beta count_part_flag count_part_unchanged)

lemma count_loop_replicate:
  "cmb e \<notin> set (map cmb cs) \<Longrightarrow> cmb c = cmb e \<Longrightarrow>
   count_loop (replicate n e @ rest) (cs @ [c]) = count_loop rest (cs @ [c\<lparr>qty := qty c + int n\<rparr>])"
proof (induction n arbitrary: c)
  case 0
  show ?case by simp
next
  case (Suc n)
  have "cmb e \<in> set (map cmb (cs @ [c]))"
    using Suc.prems(2) by simp
  then have "count_loop (e # (replicate n e @ rest)) (cs @ [c])
        = count_loop (replicate n e @ rest) (snd (count_part e (cs @ [c])))"
    by (rule count_loop_found)
  also have "\<dots> = count_loop (replicate n e @ rest) (cs @ [c\<lparr>qty := qty c + 1\<rparr>])"
    using count_part_last [OF Suc.prems] by simp
  also have "\<dots> = count_loop rest (cs @ [c\<lparr>qty := qty c + 1\<rparr>\<lparr>qty := qty (c\<lparr>qty := qty c + 1\<rparr>) + int n\<rparr>])"
    using Suc.prems by (intro Suc.IH) simp_all
  also have "c\<lparr>qty := qty c + 1\<rparr>\<lparr>qty := qty (c\<lparr>qty := qty c + 1\<rparr>) + int n\<rparr>
        = c\<lparr>qty := qty c + int (Suc n)\<rparr>"
    by (simp add: algebra_simps)
  finally show ?case by simp
qed

lemma count_loop_expand:
  "distinct (map cmb (cs @ ps)) \<Longrightarrow> \<forall>p \<in> set ps. 1 \<le> qty p \<Longrightarrow>
   count_loop (expand ps) cs = cs @ ps"
proof (induction ps arbitrary: cs)
  case Nil
  show ?case by (simp add: expand_def)
next
  case (Cons p ps)
  define e where "e = bom_line_of p"
  define n where "n = nat (qty p) - 1"
  have q: "1 \<le> qty p" using Cons.prems(2) by simp
  then have rep: "replicate (nat (qty p)) e = e # replicate n e"
    by (cases "nat (qty p)") (auto simp: n_def)
  have key: "cmb e = cmb p" by (simp add: e_def bom_line_of_def)
  have fresh: "cmb e \<notin> set (map cmb cs)"
    using Cons.prems(1) key by auto
  have restore: "(new_item e)\<lparr>qty := qty (new_item e) + int n\<rparr> = p"
    using q by (simp add: new_item_def e_def bom_line_of_def n_def)
  have "expand (p # ps) = e # (replicate n e @ expand ps)"
    by (simp add: expand_def rep e_def [symmetric])
  then have "count_loop (expand (p # ps)) cs = count_loop (e # (replicate n e @ expand ps)) cs"
    by simp
  also have "\<dots> = count_loop (replicate n e @ expand ps) (cs @ [new_item e])"
    using fresh by (rule count_loop_new)
  also have "\<dots> = count_loop (expand ps) (cs @ [(new_item e)\<lparr>qty := qty (new_item e) + int n\<rparr>])"
    using fresh by (intro count_loop_replicate) (simp_all add: new_item_def)
  also have "\<dots> = count_loop (expand ps) (cs @ [p])"
    by (simp only: restore)
  also have "\<dots> = (cs @ [p]) @ ps"
    using Cons.prems by (intro Cons.IH) simp_all
  finally show ?case by simp
qed

lemma aggregation_of_expand:
  "distinct (map cmb col) \<Longrightarrow> \<forall>p \<in> set col. 1 \<le> qty p \<Longrightarrow>
   create_component_list (expand col) = col"
  using count_loop_expand [of "[]" col] by (simp add: create_component_list_def)

subsection \<open>What the splitter visits\<close>

text \<open>
  C1 (as amended). The Splitter visits every part of the full aggregated set; \<open>cnt\<close>
  only sets the threshold. Each part whose quantity exceeds \<open>cnt/2\<close>, whether or not
  it is among the top \<open>cnt\<close> parts by quantity, has its quantity replaced by
  \<open>floor(q/2)\<close> and gets one duplicate entry with the remainder, appended after all
  aggregated parts in their order; each part whose quantity is at most \<open>cnt/2\<close> is left
  unchanged and gets no duplicate.
\<close>

theorem splitter_scans_every_part:
  "splitter col cnt =
     map (\<lambda>p. if real_of_int (qty p) > real cnt / 2 then p\<lparr>qty := qty p div 2\<rparr> else p) col
     @ map (\<lambda>p. p\<lparr>qty := qty p - qty p div 2\<rparr>)
         (filter (\<lambda>p. real_of_int (qty p) > real cnt / 2) col)"
  by (simp only: splitter_eq halved_def [abs_def] remainder_def [abs_def] over_half_iff)

text \<open>
  C1 as stated fails. Take thirty-nine part types with twenty components each. Then
  \<open>cnt = 38\<close>, the thirty-ninth part is not among the top 38 of the ranking, and its
  quantity 20 exceeds \<open>cnt/2 = 19\<close>: the splitter halves it to 10 and appends a
  duplicate entry of quantity 10.
\<close>

theorem splitter_beyond_candidates_counterexample:
  "create_component_list (expand col39) = col39
   \<and> length col39 = 39 \<and> feeder_cnt col39 = 38
   \<and> col39 ! 38 \<notin> set (take (feeder_cnt col39) (sorted_reverse qty col39))
   \<and> qty (col39 ! 38) = 20
   \<and> splitter col39 (feeder_cnt col39) ! 38 = (col39 ! 38)\<lparr>qty := 10\<rparr>
   \<and> splitter col39 (feeder_cnt col39) ! 77 = (col39 ! 38)\<lparr>qty := 10\<rparr>"
proof -
  have "distinct (map cmb col39)"
    by code_simp
  moreover have "\<forall>p \<in> set col39. 1 \<le> qty p"
    by (simp add: col39_def)
  ultimately have "create_component_list (expand col39) = col39"
    by (rule aggregation_of_expand)
  moreover have "length col39 = 39 \<and> feeder_cnt col39 = 38
   \<and> col39 ! 38 \<notin> set (take (feeder_cnt col39) (sorted_reverse qty col39))
   \<and> qty (col39 ! 38) = 20
   \<and> splitter col39 (feeder_cnt col39) ! 38 = (col39 ! 38)\<lparr>qty := 10\<rparr>
   \<and> splitter col39 (feeder_cnt col39) ! 77 = (col39 ! 38)\<lparr>qty := 10\<rparr>"
    by code_simp
  ultimately show ?thesis by blast
qed

subsection \<open>The two entries of a split part\<close>

text \<open>
  C6 (as amended). For every part of quantity \<open>q > cnt/2\<close> in a list with one entry per
  typeKey, the splitter leaves exactly two entries of that typeKey, the original with
  quantity \<open>floor(q/2)\<close> and the appended one with \<open>q - floor(q/2)\<close>. The two add up to
  \<open>q\<close>; the appended remainder is at least 1 and, for odd \<open>q\<close>, the larger of the
  two; the floor half is at least 1 exactly when \<open>q \<ge> 2\<close>, which holds whenever
  \<open>cnt \<ge> 2\<close>.
\<close>

theorem split_correctness:
  assumes "distinct (map cmb col)" "p \<in> set col" "real_of_int (qty p) > real cnt / 2"
  shows "filter (\<lambda>e. cmb e = cmb p) (splitter col cnt)
           = [p\<lparr>qty := qty p div 2\<rparr>, p\<lparr>qty := qty p - qty p div 2\<rparr>]
         \<and> qty p div 2 + (qty p - qty p div 2) = qty p
         \<and> 1 \<le> qty p - qty p div 2
         \<and> (1 \<le> qty p div 2) = (2 \<le> qty p)
         \<and> (2 \<le> cnt \<longrightarrow> 1 \<le> qty p div 2)
         \<and> (odd (qty p) \<longrightarrow> qty p div 2 < qty p - qty p div 2)"
proof -
  from assms(3) have over: "int cnt < 2 * qty p"
    by (simp add: over_half_iff)
  then have "filter (\<lambda>e. cmb e = cmb p) (splitter col cnt)
           = [p\<lparr>qty := qty p div 2\<rparr>, p\<lparr>qty := qty p - qty p div 2\<rparr>]"
    using split_entries [OF assms(1,2), of cnt] by simp
  moreover from over have "1 \<le> qty p - qty p div 2" by linarith
  moreover have "(1 \<le> qty p div 2) = (2 \<le> qty p)" by linarith
  moreover from over have "2 \<le> cnt \<longrightarrow> 1 \<le> qty p div 2" by linarith
  moreover have "odd (qty p) \<longrightarrow> qty p div 2 < qty p - qty p div 2"
    by presburger
  ultimately show ?thesis by simp
qed

theorem split_correctness_witness:
  "distinct (map cmb col_swap) \<and> col_swap ! 0 \<in> set col_swap
   \<and> real_of_int (qty (col_swap ! 0)) > real (feeder_cnt col_swap) / 2
   \<and> qty (col_swap ! 0) = 3 \<and> feeder_cnt col_swap = 3
   \<and> filter (\<lambda>e. cmb e = cmb (col_swap ! 0)) (splitter col_swap (feeder_cnt col_swap))
       = [(col_swap ! 0)\<lparr>qty := 1\<rparr>, (col_swap ! 0)\<lparr>qty := 2\<rparr>]"
proof -
  have v: "qty (col_swap ! 0) = 3 \<and> feeder_cnt col_swap = 3"
    by code_simp
  have d: "distinct (map cmb col_swap)"
    by code_simp
  have m: "col_swap ! 0 \<in> set col_swap"
    by code_simp
  have o: "real_of_int (qty (col_swap ! 0)) > real (feeder_cnt col_swap) / 2"
    by (simp add: v)
  from split_correctness [OF d m o] v
  have "filter (\<lambda>e. cmb e = cmb (col_swap ! 0)) (splitter col_swap (feeder_cnt col_swap))
       = [(col_swap ! 0)\<lparr>qty := 1\<rparr>, (col_swap ! 0)\<lparr>qty := 2\<rparr>]"
    by simp
  with v d m o show ?thesis by blast
qed

text \<open>
  C6 as stated fails for a BOM of a single line: \<open>cnt = 1\<close>, the quantity 1 exceeds
  \<open>cnt/2\<close>, and the split leaves the original entry with quantity 0.
\<close>

theorem split_leaves_zero_counterexample:
  "feeder_cnt single = 1 \<and> map qty single = [1]
   \<and> map qty (splitter single (feeder_cnt single)) = [0, 1]"
  by code_simp

section \<open>The distribution\<close>

lemma distribute_in_range:
  "\<forall>i \<in> set is. i < length cl \<and> i < length l1_ptrn \<Longrightarrow>
   distribute is cl fl = Inr (fl @ map (\<lambda>i. add_feeder (cl ! i) (l1_ptrn ! i)) is)"
  by (induction "is" arbitrary: fl) auto

lemma length_l1_ptrn: "length l1_ptrn = 38"
  by (simp add: l1_ptrn_def)

lemma l1_ptrn_pattern:
  "l1_ptrn = map (\<lambda>i. if even i then 19 + i div 2 else 19 - (i + 1) div 2) [0..<38]"
  by code_simp

lemma l1_ptrn_distinct: "distinct l1_ptrn"
  by (simp add: l1_ptrn_def)

lemma l1_ptrn_perm: "mset l1_ptrn = mset [0..<38]"
  by code_simp

lemma take_map_nth: "n \<le> length xs \<Longrightarrow> map (\<lambda>i. xs ! i) [0..<n] = take n xs"
proof -
  assume n: "n \<le> length xs"
  have "take n xs = take n (map (\<lambda>i. xs ! i) [0..<length xs])"
    by (simp add: map_nth)
  also have "\<dots> = map (\<lambda>i. xs ! i) (take n [0..<length xs])"
    by (rule take_map)
  also have "\<dots> = map (\<lambda>i. xs ! i) [0..<n]"
    using n by simp
  finally show ?thesis by simp
qed

lemma feeder_cnt_le: "feeder_cnt col \<le> length col \<and> feeder_cnt col \<le> length l1_ptrn"
  by (simp add: feeder_cnt_def)

lemma feeder_cnt_min: "feeder_cnt col = min (length col) 38"
  by (simp add: feeder_cnt_def length_l1_ptrn)

lemma length_splitter_ge: "length col \<le> length (splitter col cnt)"
  by (simp add: splitter_eq)

lemma length_sorted_reverse [simp]: "length (sorted_reverse k xs) = length xs"
  by (simp add: sorted_reverse_def)

lemma mset_sorted_reverse [simp]: "mset (sorted_reverse k xs) = mset xs"
  by (simp add: sorted_reverse_def)

lemma distribute_ranked:
  "distribute [0..<feeder_cnt col] (ranked col) [] = Inr (assigned col)"
proof -
  have "\<forall>i \<in> set [0..<feeder_cnt col]. i < length (ranked col) \<and> i < length l1_ptrn"
    using feeder_cnt_le [of col] length_splitter_ge [of col "feeder_cnt col"]
    by (auto simp: ranked_def)
  from distribute_in_range [OF this, of "[]"] show ?thesis
    by (simp add: assigned_def)
qed

lemma feeder_slots_eq: "feeder_slots col = Inr (sort_key fdr (assigned col))"
  using distribute_ranked [of col] by (simp add: feeder_slots_def Let_def ranked_def)

lemma fdr_add_feeder [simp]: "fdr (add_feeder p s) = s"
  by (simp add: add_feeder_def)

lemma cmb_add_feeder [simp]: "cmb (add_feeder p s) = cmb p"
  by (simp add: add_feeder_def)

lemma assigned_slots: "map fdr (assigned col) = take (feeder_cnt col) l1_ptrn"
proof -
  have "map fdr (assigned col) = map (\<lambda>i. l1_ptrn ! i) [0..<feeder_cnt col]"
    by (simp add: assigned_def comp_def)
  also have "\<dots> = take (feeder_cnt col) l1_ptrn"
    using feeder_cnt_le [of col] by (simp add: take_map_nth)
  finally show ?thesis .
qed

lemma assigned_keys: "map cmb (assigned col) = take (feeder_cnt col) (map cmb (ranked col))"
proof -
  have le: "feeder_cnt col \<le> length (map cmb (ranked col))"
    using feeder_cnt_le [of col] length_splitter_ge [of col "feeder_cnt col"]
    by (simp add: ranked_def)
  have "map cmb (assigned col) = map (\<lambda>i. map cmb (ranked col) ! i) [0..<feeder_cnt col]"
    using le by (simp add: assigned_def comp_def)
  also have "\<dots> = take (feeder_cnt col) (map cmb (ranked col))"
    using le by (simp add: take_map_nth)
  finally show ?thesis .
qed

lemma take_l1_ptrn_le: "s \<in> set (take n l1_ptrn) \<Longrightarrow> s \<le> 37"
proof -
  assume "s \<in> set (take n l1_ptrn)"
  then have "s \<in> set l1_ptrn" by (rule in_set_takeD)
  then show ?thesis by (auto simp: l1_ptrn_def)
qed

text \<open>
  C8. With \<open>cnt = min(number of parts, 38)\<close>, the distribution loop gives the i-th
  ranked entry, for i below \<open>cnt\<close>, the slot \<open>l1_ptrn[i]\<close> (and never reads outside a
  list). The slots handed out are the first \<open>cnt\<close> elements of \<open>l1_ptrn\<close>: pairwise
  distinct and at most 37, so that the list sorted in feeder order has strictly
  increasing slots. \<open>l1_ptrn\<close> is a permutation of 0..37 and follows the centre-out
  pattern 19, 18, 20, 17, 21, ...
\<close>

theorem distribution_slots_unique:
  "distribute [0..<feeder_cnt col] (sorted_reverse qty (splitter col (feeder_cnt col))) []
     = Inr (map (\<lambda>i. add_feeder (sorted_reverse qty (splitter col (feeder_cnt col)) ! i)
                        (l1_ptrn ! i)) [0..<feeder_cnt col])
   \<and> feeder_cnt col = min (length col) 38
   \<and> map fdr (assigned col) = take (feeder_cnt col) l1_ptrn
   \<and> distinct (map fdr (assigned col))
   \<and> (\<forall>e \<in> set (assigned col). fdr e \<le> 37)
   \<and> feeder_slots col = Inr (sort_key fdr (assigned col))
   \<and> sorted_wrt (<) (map fdr (sort_key fdr (assigned col)))
   \<and> mset l1_ptrn = mset [0..<38]
   \<and> l1_ptrn = map (\<lambda>i. if even i then 19 + i div 2 else 19 - (i + 1) div 2) [0..<38]"
proof -
  have d: "distinct (map fdr (assigned col))"
    by (simp add: assigned_slots l1_ptrn_distinct)
  have r: "\<forall>e \<in> set (assigned col). fdr e \<le> 37"
  proof
    fix e assume "e \<in> set (assigned col)"
    then have "fdr e \<in> set (map fdr (assigned col))" by simp
    then show "fdr e \<le> 37"
      unfolding assigned_slots by (rule take_l1_ptrn_le)
  qed
  have "distinct (map fdr (sort_key fdr (assigned col)))"
    using d by (simp add: distinct_map)
  moreover have "sorted (map fdr (sort_key fdr (assigned col)))"
    by simp
  ultimately have s: "sorted_wrt (<) (map fdr (sort_key fdr (assigned col)))"
    by (simp add: strict_sorted_iff)
  from distribute_ranked [of col] feeder_cnt_min [of col] assigned_slots [of col] d r
    feeder_slots_eq [of col] s l1_ptrn_perm l1_ptrn_pattern
  show ?thesis
    by (simp only: ranked_def assigned_def simp_thms)
qed

theorem distribution_slots_unique_witness:
  "feeder_cnt col_swap = 3 \<and> map fdr (assigned col_swap) = [19, 18, 20]
   \<and> map fdr (sort_key fdr (assigned col_swap)) = [18, 19, 20]"
proof -
  have c: "feeder_cnt col_swap = 3"
    by code_simp
  from distribution_slots_unique [of col_swap]
  have "map fdr (assigned col_swap) = take (feeder_cnt col_swap) l1_ptrn"
    by blast
  then have a: "map fdr (assigned col_swap) = [19, 18, 20]"
    by (simp add: c l1_ptrn_def)
  have "map fdr (sort_key fdr (assigned col_swap)) = [18, 19, 20]"
    by code_simp
  with c a show ?thesis by blast
qed

section \<open>Termination of the optimizer loop\<close>

lemma count_list_distinct: "distinct ks \<Longrightarrow> count_list ks k \<le> 1"
  by (induction ks) auto

lemma count_list_map_filter: "count_list (map f (filter P xs)) k \<le> count_list (map f xs) k"
  by (induction xs) auto

lemma splitter_keys:
  "map cmb (splitter col cnt) = map cmb col @ map cmb (filter (\<lambda>p. int cnt < 2 * qty p) col)"
  by (simp add: splitter_eq comp_def)

lemma at_most_twice_splitter:
  assumes "distinct (map cmb col)"
  shows "at_most_twice (map cmb (splitter col cnt))"
proof -
  have "count_list (map cmb (splitter col cnt)) k \<le> 2" for k
  proof -
    have "count_list (map cmb col) k \<le> 1"
      using assms by (rule count_list_distinct)
    moreover have "count_list (map cmb (filter (\<lambda>p. int cnt < 2 * qty p) col)) k
        \<le> count_list (map cmb col) k"
      by (rule count_list_map_filter)
    ultimately show ?thesis
      by (simp add: splitter_keys)
  qed
  then show ?thesis
    by (simp add: at_most_twice_def)
qed

lemma at_most_twice_take:
  assumes "at_most_twice ks"
  shows "at_most_twice (take n ks)"
proof -
  have "count_list (take n ks) k \<le> 2" if "k \<in> set (take n ks)" for k
  proof -
    have eq: "count_list ks k = count_list (take n ks) k + count_list (drop n ks) k"
      by (metis append_take_drop_id count_list_append)
    have "k \<in> set ks"
      using that by (rule in_set_takeD)
    with assms have "count_list ks k \<le> 2"
      by (simp add: at_most_twice_def)
    with eq show ?thesis
      by linarith
  qed
  then show ?thesis
    by (simp add: at_most_twice_def)
qed

lemma feeder_slots_at_most_twice:
  assumes "distinct (map cmb col)"
  shows "at_most_twice (map cmb (sort_key fdr (assigned col)))"
proof -
  have "at_most_twice (map cmb (splitter col (feeder_cnt col)))"
    using assms by (rule at_most_twice_splitter)
  moreover have "mset (map cmb (ranked col)) = mset (map cmb (splitter col (feeder_cnt col)))"
    by (simp add: ranked_def)
  ultimately have "at_most_twice (map cmb (ranked col))"
    by (rule at_most_twice_mset [rotated])
  then have "at_most_twice (map cmb (assigned col))"
    unfolding assigned_keys by (rule at_most_twice_take)
  moreover have "mset (map cmb (sort_key fdr (assigned col))) = mset (map cmb (assigned col))"
    by simp
  ultimately show ?thesis
    by (rule at_most_twice_mset [rotated])
qed

lemma length_assigned: "length (assigned col) = feeder_cnt col"
  by (simp add: assigned_def)

lemma feeder_table_returns:
  "\<exists>r. feeder_table v = Some r \<and>
        (case r of Inl e \<Rightarrow> e = IndexError | Inr fls \<Rightarrow> collisions fls = [])"
proof -
  define col where "col = create_component_list v"
  define fls where "fls = sort_key fdr (assigned col)"
  have "distinct (map cmb col)"
    using count_loop_keys [of "[]" v]
    by (simp add: col_def create_component_list_def first_occurrences_def)
  then have "at_most_twice (map cmb fls)"
    unfolding fls_def by (rule feeder_slots_at_most_twice)
  from optimize_loop_returns [OF this, of "feeder_cnt col"] obtain r where
    r: "optimize_loop fls (feeder_cnt col) = Some r"
       "case r of Inl e \<Rightarrow> e = IndexError
        | Inr fls' \<Rightarrow> mset fls' = mset fls \<and> collisions (take (feeder_cnt col) fls') = []"
    by blast
  have tab: "feeder_table v = Some r"
    using r(1) by (simp add: feeder_table_def Let_def col_def [symmetric] feeder_slots_eq fls_def)
  have "case r of Inl e \<Rightarrow> e = IndexError | Inr fls' \<Rightarrow> collisions fls' = []"
  proof (cases r)
    case (Inl e)
    with r(2) show ?thesis by simp
  next
    case (Inr fls')
    with r(2) have ms: "mset fls' = mset fls" and c: "collisions (take (feeder_cnt col) fls') = []"
      by auto
    from ms have "length fls' = length fls" by (rule mset_eq_length)
    then have "length fls' = feeder_cnt col"
      by (simp add: fls_def length_assigned)
    with c Inr show ?thesis by simp
  qed
  with tab show ?thesis by blast
qed

text \<open>
  C3 (as amended). The loop has no iteration budget and reports no non-convergence. On
  every list in which no typeKey occurs more than twice the repeated invocation of
  \<open>optimize_part_list\<close> terminates, for every \<open>cnt\<close>: either with a list, a reordering of
  the input, whose first \<open>cnt\<close> entries have no adjacent pair of equal typeKeys, or with
  an \<open>IndexError\<close>. The list main builds is of that kind for every BOM, so the feeder
  list stage of main always terminates.
\<close>

theorem optimizer_loop_terminates:
  "(at_most_twice (map cmb fls) \<longrightarrow>
      (\<exists>r. optimize_loop fls cnt = Some r \<and>
           (case r of Inl e \<Rightarrow> e = IndexError
            | Inr fls' \<Rightarrow> mset fls' = mset fls \<and> collisions (take cnt fls') = [])))
   \<and> (\<exists>r. feeder_table v = Some r \<and>
           (case r of Inl e \<Rightarrow> e = IndexError | Inr fls' \<Rightarrow> collisions fls' = []))"
  using optimize_loop_returns [of fls cnt] feeder_table_returns [of v] by blast

lemma three_twice: "at_most_twice (map cmb fls_three)"
  by (simp add: at_most_twice_def fls_three_def slot_entry_def)

theorem optimizer_loop_terminates_witness:
  "at_most_twice (map cmb fls_three) \<and> optimize_loop fls_three 3 \<noteq> None
   \<and> feeder_table (fst (read_bom (Some bom_swap))) \<noteq> None"
proof -
  note h = three_twice
  from optimizer_loop_terminates [of fls_three 3 "fst (read_bom (Some bom_swap))"] h
  have "optimize_loop fls_three 3 \<noteq> None \<and> feeder_table (fst (read_bom (Some bom_swap))) \<noteq> None"
    by auto
  with h show ?thesis by simp
qed

text \<open>
  C3 as stated fails: on a list of three entries of one typeKey every pass swaps twice
  and reports a change, so the loop never ends.
\<close>

theorem optimize_loop_runs_forever: "optimize_loop fls_same 3 = None"
proof (cases "optimize_loop fls_same 3")
  case None
  then show ?thesis .
next
  case (Some r)
  define stuck :: "feeder_entry list \<Rightarrow> bool"
    where "stuck xs = (\<exists>a b c. xs = [a, b, c] \<and> cmb a = cmb b \<and> cmb b = cmb c)" for xs
  have "\<not> (stuck xs \<and> cnt = 3)"
    if "optimize_loop xs cnt = Some r'" for xs cnt r'
  proof (rule optimize_loop.raw_induct [where P = "\<lambda>xs cnt r. \<not> (stuck xs \<and> cnt = 3)", OF _ that])
    fix f :: "feeder_entry list \<Rightarrow> nat \<Rightarrow> (py_error + feeder_entry list) option"
    fix fls cnt r
    assume IH: "\<And>xs c y. f xs c = Some y \<Longrightarrow> \<not> (stuck xs \<and> c = 3)"
    assume eq: "(case optimize_part_list fls cnt of Inl e \<Rightarrow> Some (Inl e)
          | Inr (fls', updated) \<Rightarrow> if updated then f fls' cnt else Some (Inr fls')) = Some r"
    show "\<not> (stuck fls \<and> cnt = 3)"
    proof
      assume "stuck fls \<and> cnt = 3"
      then obtain a b c where fls: "fls = [a, b, c]" and k: "cmb a = cmb b" "cmb b = cmb c"
        and cnt: "cnt = 3"
        by (auto simp: stuck_def)
      from eq have "f [c, a, b] 3 = Some r"
        by (simp add: fls cnt pass_same [OF k])
      moreover have "stuck [c, a, b]"
        using k by (simp add: stuck_def)
      ultimately show False
        using IH by blast
    qed
  qed
  moreover have "stuck fls_same"
    by (simp add: stuck_def fls_same_def slot_entry_def)
  ultimately show ?thesis
    using Some by blast
qed

section \<open>Runs of main\<close>

text \<open>
  C5. The claim is that the feeder numbers written are strictly ascending and match the
  rows' positions. The Feeder column is \<open>entry[PART_FDR]+1\<close>, the slot given by the
  distribution, and the optimizer swaps entries without touching that field. On the BOM
  \<open>bom_swap\<close> the optimizer swaps once, and the rows carry the feeder numbers 19, 21, 20.
\<close>

theorem feeder_numbers_follow_old_slots:
  "main_feederlist ''bom.txt'' (Some bom_swap)
     = Some \<lparr>printed = [],
              feederlist_file = Some
                [\<lparr>Feeder = 19, Description = ''10k'', Package = ''0402'', Count = 1\<rparr>,
                 \<lparr>Feeder = 21, Description = ''100n'', Package = ''0402'', Count = 1\<rparr>,
                 \<lparr>Feeder = 20, Description = ''10k'', Package = ''0402'', Count = 2\<rparr>],
              exit_status = 0\<rparr>"
  by code_simp

text \<open>
  C9. The claim is that a missing file or a short line is fatal. On the BOM \<open>bom_short\<close>
  the second line raises \<open>IndexError\<close>; the handler prints the file name and the
  exception, and main goes on: the feeder list is written from the one line read before,
  and the run ends with status 0. When the file cannot be opened, an empty feeder list is
  written and the status is 0 as well.
\<close>

theorem read_failure_is_not_fatal:
  "main_feederlist ''bom.txt'' (Some bom_short)
     = Some \<lparr>printed = [CouldNotOpenFile ''bom.txt'', ExceptionText IndexError],
              feederlist_file = Some
                [\<lparr>Feeder = 20, Description = ''10k'', Package = ''0402'', Count = 1\<rparr>],
              exit_status = 0\<rparr>
   \<and> main_feederlist ''bom.txt'' None
     = Some \<lparr>printed = [CouldNotOpenFile ''bom.txt'', ExceptionText OSError],
              feederlist_file = Some [], exit_status = 0\<rparr>"
  by code_simp

end
